theory Spec2Isabelle
  imports Main "HOL-Library.Word"
begin

unbundle bit_operations_syntax

section \<open>Machine types and panics\<close>

type_synonym u8 = "8 word"
type_synonym u32 = "32 word"
type_synonym u64 = "64 word"

text \<open>The run-time panics of Go that the modelled code can raise.\<close>

datatype panic = IndexOutOfRange | SliceBoundsOutOfRange | NilDereference

section \<open>Package sha1: the current hash.go\<close>

definition BLOCK_BYTES :: nat where "BLOCK_BYTES = 64"
definition BLOCK_INTS :: nat where "BLOCK_INTS = 16"
definition DIGEST_BYTES :: nat where "DIGEST_BYTES = 20"
definition DIGEST_INTS :: nat where "DIGEST_INTS = 5"
definition SCRATCH_INTS :: nat where "SCRATCH_INTS = 80"

definition K_0 :: u32 where "K_0 = 0x5a827999"
definition K_1 :: u32 where "K_1 = 0x6ed9eba1"
definition K_2 :: u32 where "K_2 = 0x8f1bbcdc"
definition K_3 :: u32 where "K_3 = 0xca62c1d6"

text \<open>
  \<^verbatim>\<open>type hasher struct { block [16]uint32; length uint64; chainValue [5]uint32 }\<close>.
  The arrays are lists; the field \<^verbatim>\<open>length\<close> is called \<open>length_h\<close> here.
\<close>

record hasher =
  block :: "u32 list"
  length_h :: u64
  chainValue :: "u32 list"

text \<open>A digest is the 20-byte array; \<^verbatim>\<open>Bytes()\<close> returns it as a slice.\<close>

type_synonym Digest = "u8 list"

definition Bytes :: "Digest \<Rightarrow> u8 list" where
  "Bytes d = d"

text \<open>\<^verbatim>\<open>Reset\<close>: zero the length and the block, store the five initial chain values.\<close>

definition Reset :: "hasher \<Rightarrow> hasher" where
  "Reset state =
     (let state = state\<lparr>length_h := 0\<rparr>;
          state = state\<lparr>block := replicate BLOCK_INTS 0\<rparr>;
          state = state\<lparr>chainValue := (chainValue state)[0 := 0x67452301]\<rparr>;
          state = state\<lparr>chainValue := (chainValue state)[1 := 0xefcdab89]\<rparr>;
          state = state\<lparr>chainValue := (chainValue state)[2 := 0x98badcfe]\<rparr>;
          state = state\<lparr>chainValue := (chainValue state)[3 := 0x10325476]\<rparr>;
          state = state\<lparr>chainValue := (chainValue state)[4 := 0xc3d2e1f0]\<rparr>
      in state)"

text \<open>\<^verbatim>\<open>New\<close> of package sha1: \<^verbatim>\<open>new(hasher)\<close> is the zero value, then \<^verbatim>\<open>Reset\<close>.\<close>

definition zero_hasher :: hasher where
  "zero_hasher = \<lparr>block = replicate BLOCK_INTS 0, length_h = 0,
                   chainValue = replicate DIGEST_INTS 0\<rparr>"

definition sha1_New :: hasher where
  "sha1_New = Reset zero_hasher"

text \<open>\<^verbatim>\<open>rotateL\<close>: \<^verbatim>\<open>uint32(value<<bits) | uint32(value>>(32-bits))\<close>.\<close>

definition rotateL :: "u32 \<Rightarrow> nat \<Rightarrow> u32" where
  "rotateL v bits = push_bit bits v OR drop_bit (32 - bits) v"

text \<open>
  The loop of \<^verbatim>\<open>copyBytes\<close>: each byte is shifted into \<open>v\<close>; whenever the
  running length reaches a multiple of four the word is stored and the block
  index advances. A store beyond the sixteen words of the block panics.
\<close>

fun copyBytes_loop ::
  "u8 list \<Rightarrow> u32 \<Rightarrow> u64 \<Rightarrow> nat \<Rightarrow> u32 list \<Rightarrow> panic + (u32 \<times> u64 \<times> nat \<times> u32 list)" where
  "copyBytes_loop [] v len blocki blk = Inr (v, len, blocki, blk)"
| "copyBytes_loop (m # ms) v len blocki blk =
     (let v = push_bit 8 v + ucast m;
          len = len + 1
      in if len AND 3 = 0
         then (if blocki < BLOCK_INTS
               then copyBytes_loop ms 0 len (blocki + 1) (blk[blocki := v])
               else Inl IndexOutOfRange)
         else copyBytes_loop ms v len blocki blk)"

definition copyBytes :: "hasher \<Rightarrow> u8 list \<Rightarrow> panic + hasher" where
  "copyBytes state message =
     (let blocki = unat (drop_bit 2 (ucast (length_h state AND 63) :: u32));
          v = block state ! blocki
      in case copyBytes_loop message v (length_h state) blocki (block state) of
           Inl e \<Rightarrow> Inl e
         | Inr (v, len, blocki, blk) \<Rightarrow>
             if len AND 3 \<noteq> 0
             then (if blocki < BLOCK_INTS
                   then Inr (state\<lparr>block := blk[blocki := v], length_h := len\<rparr>)
                   else Inl IndexOutOfRange)
             else Inr (state\<lparr>block := blk, length_h := len\<rparr>))"

text \<open>
  The message schedule of \<^verbatim>\<open>mixBits\<close>, its first three loops: copy the block,
  the rotate-by-one recurrence for indices 16 to 31, the rotate-by-two
  recurrence from index 32 on.
\<close>

definition message_schedule :: "u32 list \<Rightarrow> u32 list \<Rightarrow> u32 list" where
  "message_schedule blk scratch =
     (let scratch = fold (\<lambda>i sc. sc[i := blk ! i]) [0..<16] scratch;
          scratch = fold (\<lambda>i sc. sc[i := rotateL
                       (sc ! (i - 3) XOR sc ! (i - 8) XOR sc ! (i - 14) XOR sc ! (i - 16)) 1])
                     [16..<32] scratch;
          scratch = fold (\<lambda>i sc. sc[i := rotateL
                       (sc ! (i - 6) XOR sc ! (i - 16) XOR sc ! (i - 28) XOR sc ! (i - 32)) 2])
                     [32..<SCRATCH_INTS] scratch
      in scratch)"

type_synonym working = "u32 \<times> u32 \<times> u32 \<times> u32 \<times> u32"

fun round0 :: "u32 \<Rightarrow> working \<Rightarrow> working" where
  "round0 w (a, b, c, d, e) =
     (rotateL a 5 + (d XOR (b AND (c XOR d))) + e + K_0 + w, a, rotateL b 30, c, d)"

fun round1 :: "u32 \<Rightarrow> working \<Rightarrow> working" where
  "round1 w (a, b, c, d, e) =
     (rotateL a 5 + (b XOR c XOR d) + e + K_1 + w, a, rotateL b 30, c, d)"

fun round2 :: "u32 \<Rightarrow> working \<Rightarrow> working" where
  "round2 w (a, b, c, d, e) =
     (rotateL a 5 + ((b AND c) OR (d AND (b OR c))) + e + K_2 + w, a, rotateL b 30, c, d)"

fun round3 :: "u32 \<Rightarrow> working \<Rightarrow> working" where
  "round3 w (a, b, c, d, e) =
     (rotateL a 5 + (b XOR c XOR d) + e + K_3 + w, a, rotateL b 30, c, d)"

text \<open>The four passes of twenty rounds each over the schedule.\<close>

definition rounds :: "u32 list \<Rightarrow> working \<Rightarrow> working" where
  "rounds scratch v =
     (let v = fold (\<lambda>i. round0 (scratch ! i)) [0..<20] v;
          v = fold (\<lambda>i. round1 (scratch ! i)) [20..<40] v;
          v = fold (\<lambda>i. round2 (scratch ! i)) [40..<60] v;
          v = fold (\<lambda>i. round3 (scratch ! i)) [60..<80] v
      in v)"

text \<open>
  \<^verbatim>\<open>mixBits\<close>: the schedule, the eighty rounds, the addition into the chain
  value, the clearing of the block. The scratch array is overwritten at every
  index before it is read and is cleared again on return, so the caller's
  array is all-zero after the call, as it was when allocated.
\<close>

definition mixBits :: "hasher \<Rightarrow> u32 list \<Rightarrow> hasher" where
  "mixBits state scratch =
     (let scratch = message_schedule (block state) scratch;
          cv = chainValue state
      in case rounds scratch (cv ! 0, cv ! 1, cv ! 2, cv ! 3, cv ! 4) of
           (a, b, c, d, e) \<Rightarrow>
             state\<lparr>chainValue := cv[0 := cv ! 0 + a, 1 := cv ! 1 + b, 2 := cv ! 2 + c,
                                    3 := cv ! 3 + d, 4 := cv ! 4 + e],
                   block := replicate BLOCK_INTS 0\<rparr>)"

definition new_scratch :: "u32 list" where
  "new_scratch = replicate SCRATCH_INTS 0"

text \<open>The loop of \<^verbatim>\<open>Write\<close> over the rest of the message, from \<open>index\<close> on.\<close>

function Write_loop :: "hasher \<Rightarrow> u8 list \<Rightarrow> nat \<Rightarrow> panic + hasher" where
  "Write_loop state message index =
     (if index < length message
      then (let next = (if index + BLOCK_BYTES > length message then length message
                        else index + BLOCK_BYTES)
            in case copyBytes state (take (next - index) (drop index message)) of
                 Inl e \<Rightarrow> Inl e
               | Inr state \<Rightarrow>
                   Write_loop
                     (if next - index = BLOCK_BYTES then mixBits state new_scratch else state)
                     message next)
      else Inr state)"
  by pat_completeness auto
termination
  by (relation "measure (\<lambda>(state, message, index). length message - index)")
     (auto simp: BLOCK_BYTES_def)

declare Write_loop.simps [simp del]

text \<open>
  \<^verbatim>\<open>Write\<close>. The Go function returns \<^verbatim>\<open>(len(message), nil)\<close> on every path; the
  model returns the new state, or the panic of \<^verbatim>\<open>copyBytes\<close>.
\<close>

definition Write :: "hasher \<Rightarrow> u8 list \<Rightarrow> panic + hasher" where
  "Write state message =
     (let msglen = length message in
      if msglen = 0 then Inr state
      else (let offset = unat (length_h state AND 63) in
            if msglen + offset < BLOCK_BYTES then copyBytes state message
            else (let index = 64 - offset in
                  case copyBytes state (take index message) of
                    Inl e \<Rightarrow> Inl e
                  | Inr state \<Rightarrow>
                      (let state = mixBits state new_scratch;
                           index = index + offset
                       in Write_loop state message index))))"

text \<open>\<^verbatim>\<open>write1bit\<close>: the single one-bit after the message, at byte \<open>blockpos\<close>.\<close>

definition write1bit :: "u32 list \<Rightarrow> u8 \<Rightarrow> u32 list" where
  "write1bit blk blockpos =
     (let blocki = unat (drop_bit 2 blockpos) in
      if blockpos AND 3 = 0 then blk[blocki := 0x80000000]
      else if blockpos AND 3 = 1 then blk[blocki := push_bit 24 (blk ! blocki) OR 0x00800000]
      else if blockpos AND 3 = 2 then blk[blocki := push_bit 16 (blk ! blocki) OR 0x00008000]
      else if blockpos AND 3 = 3 then blk[blocki := push_bit 8 (blk ! blocki) OR 0x00000080]
      else blk)"

text \<open>
  \<^verbatim>\<open>newDigest\<close>: the five words, big-endian, at offsets 0, 4, 8, 12 and 16 of a
  20-byte array; the five stores fill the array.
\<close>

definition be32 :: "u32 \<Rightarrow> u8 list" where
  "be32 v = [ucast (drop_bit 24 v), ucast (drop_bit 16 v), ucast (drop_bit 8 v), ucast v]"

definition newDigest :: "u32 list \<Rightarrow> Digest" where
  "newDigest ints =
     be32 (ints ! 0) @ be32 (ints ! 1) @ be32 (ints ! 2) @ be32 (ints ! 3) @ be32 (ints ! 4)"

text \<open>\<^verbatim>\<open>Hash\<close>: padding, length field, the last one or two blocks, then \<^verbatim>\<open>Reset\<close>.\<close>

definition Hash :: "hasher \<Rightarrow> Digest \<times> hasher" where
  "Hash state =
     (let len = length_h state;
          state = state\<lparr>block := write1bit (block state) (ucast (len AND 63))\<rparr>;
          state = (if len AND 63 \<ge> 56
                   then mixBits (state\<lparr>length_h := length_h state + (64 - (len AND 63))\<rparr>)
                          new_scratch
                   else state);
          state = state\<lparr>block := (block state)[BLOCK_INTS - 2 := ucast (drop_bit 29 len)]\<rparr>;
          state = state\<lparr>block := (block state)[BLOCK_INTS - 1 :=
                                   push_bit 3 (ucast (len AND 0x1FFFFFFF))]\<rparr>;
          state = state\<lparr>length_h := length_h state + (64 - (length_h state AND 63))\<rparr>;
          state = mixBits state new_scratch;
          digest = newDigest (chainValue state)
      in (digest, Reset state))"

definition HashBytes :: "u8 list \<Rightarrow> panic + Digest" where
  "HashBytes input =
     (case Write sha1_New input of
        Inl e \<Rightarrow> Inl e
      | Inr hasher \<Rightarrow> Inr (fst (Hash hasher)))"

text \<open>\<^verbatim>\<open>HashString\<close>: the bytes of the string, then \<^verbatim>\<open>HashBytes\<close>.\<close>

definition byte_of_char :: "char \<Rightarrow> u8" where
  "byte_of_char c = of_nat (of_char c)"

definition HashString :: "string \<Rightarrow> panic + Digest" where
  "HashString input = HashBytes (map byte_of_char input)"


section \<open>Package sha1: the first draft of hash.go\<close>

text \<open>
  The draft keeps the block as 64 bytes and calls the chain values
  \<^verbatim>\<open>digest\<close>. Its \<^verbatim>\<open>Reset\<close> stores all five constants at index 0.
\<close>

record hasher_draft =
  block_d :: "u8 list"
  length_d :: u64
  digest_d :: "u32 list"

definition Reset_draft :: "hasher_draft \<Rightarrow> hasher_draft" where
  "Reset_draft state =
     (let state = state\<lparr>length_d := 0\<rparr>;
          state = state\<lparr>block_d := replicate BLOCK_BYTES 0\<rparr>;
          state = state\<lparr>digest_d := (digest_d state)[0 := 0x67452301]\<rparr>;
          state = state\<lparr>digest_d := (digest_d state)[0 := 0xefcdab89]\<rparr>;
          state = state\<lparr>digest_d := (digest_d state)[0 := 0x98badcfe]\<rparr>;
          state = state\<lparr>digest_d := (digest_d state)[0 := 0x10325476]\<rparr>;
          state = state\<lparr>digest_d := (digest_d state)[0 := 0xc3d2e1f0]\<rparr>
      in state)"

definition zero_hasher_draft :: hasher_draft where
  "zero_hasher_draft = \<lparr>block_d = replicate BLOCK_BYTES 0, length_d = 0,
                         digest_d = replicate DIGEST_INTS 0\<rparr>"

definition New_draft :: hasher_draft where
  "New_draft = Reset_draft zero_hasher_draft"

section \<open>The message schedule in index form, and as the specification words it\<close>

text \<open>
  \<open>W_code\<close> is the value that the three schedule loops of \<^verbatim>\<open>mixBits\<close> leave
  at index \<open>t\<close>: the block word below 16, the rotate-by-one recurrence
  below 32, the rotate-by-two recurrence from 32 on.
\<close>

function W_code :: "u32 list \<Rightarrow> nat \<Rightarrow> u32" where
  "W_code M t =
     (if t < 16 then M ! t
      else if t < 32
      then rotateL (W_code M (t - 3) XOR W_code M (t - 8) XOR W_code M (t - 14)
                    XOR W_code M (t - 16)) 1
      else rotateL (W_code M (t - 6) XOR W_code M (t - 16) XOR W_code M (t - 28)
                    XOR W_code M (t - 32)) 2)"
  by pat_completeness auto
termination
  by (relation "measure (\<lambda>(M, t). t)") auto

declare W_code.simps [simp del]

text \<open>
  One step of either recurrence on the schedule built so far, held newest
  word first: the word at distance \<open>k\<close> behind the new one is at index \<open>k - 1\<close>.
\<close>

definition ext1 :: "u32 list \<Rightarrow> u32 list" where
  "ext1 R = rotateL (R ! 2 XOR R ! 7 XOR R ! 13 XOR R ! 15) 1 # R"

definition ext2 :: "u32 list \<Rightarrow> u32 list" where
  "ext2 R = rotateL (R ! 5 XOR R ! 15 XOR R ! 27 XOR R ! 31) 2 # R"

text \<open>
  The schedule of the specification: \<open>ROTL\<close> is the circular left shift, and one
  recurrence, \<open>W[t] = ROTL1 (W[t-3] XOR W[t-8] XOR W[t-14] XOR W[t-16])\<close>, serves
  every \<open>t\<close> from 16 to 79.
\<close>

definition ROTL :: "nat \<Rightarrow> u32 \<Rightarrow> u32" where
  "ROTL n x = word_rotl n x"

function W_spec :: "u32 list \<Rightarrow> nat \<Rightarrow> u32" where
  "W_spec M t =
     (if t < 16 then M ! t
      else ROTL 1 (W_spec M (t - 3) XOR W_spec M (t - 8) XOR W_spec M (t - 14)
                   XOR W_spec M (t - 16)))"
  by pat_completeness auto
termination
  by (relation "measure (\<lambda>(M, t). t)") auto

declare W_spec.simps [simp del]

definition spec_schedule :: "u32 list \<Rightarrow> u32 list" where
  "spec_schedule M = map (W_spec M) [0..<80]"

section \<open>Package gorng: random.go\<close>

text \<open>
  \<^verbatim>\<open>binary.BigEndian\<close>: the readers check that the slice is long enough first
  (\<^verbatim>\<open>_ = b[7]\<close>, \<^verbatim>\<open>_ = b[3]\<close>) and panic otherwise.
\<close>

definition BigEndian_Uint64 :: "u8 list \<Rightarrow> panic + u64" where
  "BigEndian_Uint64 b =
     (if length b < 8 then Inl IndexOutOfRange
      else Inr (ucast (b ! 7) OR push_bit 8 (ucast (b ! 6)) OR push_bit 16 (ucast (b ! 5))
                OR push_bit 24 (ucast (b ! 4)) OR push_bit 32 (ucast (b ! 3))
                OR push_bit 40 (ucast (b ! 2)) OR push_bit 48 (ucast (b ! 1))
                OR push_bit 56 (ucast (b ! 0))))"

definition BigEndian_Uint32 :: "u8 list \<Rightarrow> panic + u32" where
  "BigEndian_Uint32 b =
     (if length b < 4 then Inl IndexOutOfRange
      else Inr (ucast (b ! 3) OR push_bit 8 (ucast (b ! 2)) OR push_bit 16 (ucast (b ! 1))
                OR push_bit 24 (ucast (b ! 0))))"

definition be64 :: "u64 \<Rightarrow> u8 list" where
  "be64 v = [ucast (drop_bit 56 v), ucast (drop_bit 48 v), ucast (drop_bit 40 v),
             ucast (drop_bit 32 v), ucast (drop_bit 24 v), ucast (drop_bit 16 v),
             ucast (drop_bit 8 v), ucast v]"

text \<open>
  \<^verbatim>\<open>binary.BigEndian.PutUint64(bytes[off:], v)\<close>: slicing panics when \<open>off\<close>
  exceeds the length, the store panics when fewer than eight bytes remain.
\<close>

definition PutUint64_at :: "u8 list \<Rightarrow> nat \<Rightarrow> u64 \<Rightarrow> panic + u8 list" where
  "PutUint64_at bytes off v =
     (if off > length bytes then Inl SliceBoundsOutOfRange
      else if length bytes - off < 8 then Inl IndexOutOfRange
      else Inr (take off bytes @ be64 v @ drop (off + 8) bytes))"

record ShaRing =
  rng :: hasher
  offset :: int
  digest :: "Digest option"

text \<open>\<^verbatim>\<open>New\<close>: a nil source is replaced by the default hasher.\<close>

definition New :: "hasher option \<Rightarrow> ShaRing" where
  "New source =
     \<lparr>rng = (case source of None \<Rightarrow> sha1_New | Some h \<Rightarrow> h), offset = 0, digest = None\<rparr>"

text \<open>The loop \<^verbatim>\<open>for i := range more\<close> of \<^verbatim>\<open>NewSourceSeeded\<close>; the variadic
  parameter \<^verbatim>\<open>more\<close> is called \<open>more_seeds\<close> here.\<close>

fun seed_loop :: "nat \<Rightarrow> u64 list \<Rightarrow> u8 list \<Rightarrow> panic + u8 list" where
  "seed_loop i [] bytes = Inr bytes"
| "seed_loop i (m # ms) bytes =
     (case PutUint64_at bytes (8 * (i + 1)) m of
        Inl e \<Rightarrow> Inl e
      | Inr bytes \<Rightarrow> seed_loop (i + 1) ms bytes)"

definition NewSourceSeeded :: "u64 \<Rightarrow> u64 list \<Rightarrow> panic + ShaRing" where
  "NewSourceSeeded seed more_seeds =
     (let source = sha1_New;
          size = 2 + (2 * length more_seeds);
          bytes = replicate size 0
      in case PutUint64_at bytes 0 seed of
           Inl e \<Rightarrow> Inl e
         | Inr bytes \<Rightarrow>
            (case seed_loop 0 more_seeds bytes of
               Inl e \<Rightarrow> Inl e
             | Inr bytes \<Rightarrow>
                (case Write source bytes of
                   Inl e \<Rightarrow> Inl e
                 | Inr source \<Rightarrow> Inr \<lparr>rng = source, offset = 0, digest = None\<rparr>)))"

text \<open>
  \<^verbatim>\<open>NewSourceDigest\<close>; \<^verbatim>\<open>sha1.NewFromDigest\<close> is not among the sources and is a
  parameter here.
\<close>

definition NewSourceDigest :: "(Digest \<Rightarrow> hasher) \<Rightarrow> Digest \<Rightarrow> ShaRing" where
  "NewSourceDigest NewFromDigest d = \<lparr>rng = NewFromDigest d, offset = 0, digest = None\<rparr>"

text \<open>
  \<^verbatim>\<open>Uint64\<close>: the switch on the offset. Reading the bytes of a nil digest is a
  nil dereference; an offset the switch does not list returns 0.
\<close>

definition Uint64 :: "ShaRing \<Rightarrow> panic + (u64 \<times> ShaRing)" where
  "Uint64 r =
     (if offset r = 0 then
        (case Hash (rng r) of (d, h) \<Rightarrow>
           (let r = r\<lparr>rng := h, digest := Some d\<rparr> in
            case BigEndian_Uint64 (Bytes d) of
              Inl e \<Rightarrow> Inl e
            | Inr next \<Rightarrow> Inr (next, r)))
      else if offset r = 4 \<or> offset r = 8 then
        (case digest r of
           None \<Rightarrow> Inl NilDereference
         | Some d \<Rightarrow>
            (case BigEndian_Uint64 (Bytes d) of
               Inl e \<Rightarrow> Inl e
             | Inr next \<Rightarrow> Inr (next, r\<lparr>offset := offset r + 8\<rparr>)))
      else if offset r = 12 then
        (case digest r of
           None \<Rightarrow> Inl NilDereference
         | Some d \<Rightarrow>
            (case BigEndian_Uint64 (Bytes d) of
               Inl e \<Rightarrow> Inl e
             | Inr next \<Rightarrow> Inr (next, r\<lparr>offset := 0\<rparr>)))
      else if offset r = 16 then
        (case digest r of
           None \<Rightarrow> Inl NilDereference
         | Some d \<Rightarrow>
            (if length (Bytes d) < 16 then Inl SliceBoundsOutOfRange
             else case BigEndian_Uint32 (drop 16 (Bytes d)) of
               Inl e \<Rightarrow> Inl e
             | Inr hi \<Rightarrow>
                (case Hash (rng r) of (d', h) \<Rightarrow>
                   (let next = push_bit 32 (ucast hi :: u64);
                        r = r\<lparr>rng := h, digest := Some d'\<rparr>
                    in case BigEndian_Uint32 (Bytes d') of
                         Inl e \<Rightarrow> Inl e
                       | Inr lo \<Rightarrow> Inr (next + ucast lo, r\<lparr>offset := 4\<rparr>)))))
      else Inr (0, r))"

text \<open>The first \<open>n\<close> results of repeated \<^verbatim>\<open>Uint64\<close> calls on one generator.\<close>

fun draws :: "nat \<Rightarrow> ShaRing \<Rightarrow> panic + u64 list" where
  "draws 0 r = Inr []"
| "draws (Suc n) r =
     (case Uint64 r of
        Inl e \<Rightarrow> Inl e
      | Inr (v, r') \<Rightarrow>
         (case draws n r' of
            Inl e \<Rightarrow> Inl e
          | Inr vs \<Rightarrow> Inr (v # vs)))"

text \<open>
  The generators a program can hold: built by one of the three constructors,
  then advanced by \<^verbatim>\<open>Uint64\<close> calls that return.
\<close>

inductive reachable :: "(Digest \<Rightarrow> hasher) \<Rightarrow> ShaRing \<Rightarrow> bool"
  for NewFromDigest :: "Digest \<Rightarrow> hasher" where
  by_New: "reachable NewFromDigest (New source)"
| by_NewSourceSeeded:
    "NewSourceSeeded seed more_seeds = Inr r \<Longrightarrow> reachable NewFromDigest r"
| by_NewSourceDigest: "reachable NewFromDigest (NewSourceDigest NewFromDigest d)"
| by_Uint64:
    "reachable NewFromDigest r \<Longrightarrow> Uint64 r = Inr (v, r') \<Longrightarrow> reachable NewFromDigest r'"

section \<open>Package safe\<close>

text \<open>
  A \<^verbatim>\<open>RandSource\<close> is a state with its \<^verbatim>\<open>Uint64\<close> method: the method returns
  the word and the next state.
\<close>

type_synonym 's RandSource = "'s \<Rightarrow> u64 \<times> 's"

text \<open>
  The inner loop of \<^verbatim>\<open>Bytes\<close>, \<^verbatim>\<open>for i := 0; i < 8; i++\<close>. A store at an index
  that is not below the length of the slice panics.
\<close>

function Bytes_inner ::
  "nat \<Rightarrow> u8 \<Rightarrow> u64 \<Rightarrow> u8 list \<Rightarrow> nat \<Rightarrow> panic + (u8 list \<times> u8)" where
  "Bytes_inner i bits next bytes offs =
     (if i < 8 then
        (if bits < 8 then
           (let mask = push_bit (unat bits) (1 :: u64) - 1 in
            if offs + i < length bytes
            then Inr (bytes[offs + i := ucast (next AND mask)], 0)
            else Inl IndexOutOfRange)
         else
           (if offs + i < length bytes
            then Bytes_inner (i + 1) (drop_bit 3 bits) (drop_bit 8 next)
                   (bytes[offs + i := ucast (next AND 0xFF)]) offs
            else Inl IndexOutOfRange))
      else Inr (bytes, bits))"
  by pat_completeness auto
termination
  by (relation "measure (\<lambda>(i, bits, next, bytes, offs). 8 - i)") auto

declare Bytes_inner.simps [simp del]

text \<open>
  The outer loop, \<^verbatim>\<open>for bits > 0\<close>: one word is drawn per pass. The fuel bounds
  the number of passes; a pass leaves fewer bits than it found, so 256 passes
  are never used up.
\<close>

fun Bytes_outer ::
  "nat \<Rightarrow> 's RandSource \<Rightarrow> 's \<Rightarrow> u8 \<Rightarrow> u8 list \<Rightarrow> nat \<Rightarrow> (panic + (u8 list \<times> 's)) option" where
  "Bytes_outer 0 uint64 src bits bytes offs = None"
| "Bytes_outer (Suc fuel) uint64 src bits bytes offs =
     (if bits > 0 then
        (case uint64 src of (next, src) \<Rightarrow>
           (case Bytes_inner 0 bits next bytes offs of
              Inl e \<Rightarrow> Some (Inl e)
            | Inr (bytes, bits) \<Rightarrow> Bytes_outer fuel uint64 src bits bytes offs))
      else Some (Inr (bytes, src)))"

text \<open>
  \<^verbatim>\<open>Bytes\<close>: \<^verbatim>\<open>make([]byte, 0, countBytes)\<close> is a slice of length 0 (and capacity
  \<open>countBytes\<close>).
\<close>

definition Bytes_of :: "'s RandSource \<Rightarrow> 's \<Rightarrow> u8 \<Rightarrow> (panic + (u8 list \<times> 's)) option" where
  "Bytes_of uint64 src bits =
     (if bits = 0 then Some (Inr ([], src))
      else (let countBytes = bits div 8;
                countBytes = (if bits AND 0x07 > 0 then countBytes + 1 else countBytes);
                bytes = [];
                offs = 0
            in Bytes_outer 256 uint64 src bits bytes offs))"

text \<open>
  The channel wrapper. The run-time state that \<^verbatim>\<open>New\<close>, \<^verbatim>\<open>start\<close> and \<^verbatim>\<open>Close\<close>
  could change: the channels made so far, the goroutines started so far, and
  the values sent so far, each with its channel.
\<close>

record runtime =
  channels :: nat
  goroutines :: nat
  sent :: "(nat \<times> u8 list) list"

record 's randchan =
  source :: 's
  bits :: u8
  channel :: nat

text \<open>\<^verbatim>\<open>start\<close> and \<^verbatim>\<open>Close\<close> have empty bodies.\<close>

definition start :: "'s randchan \<Rightarrow> runtime \<Rightarrow> runtime" where
  "start r rt = rt"

definition Close :: "'s randchan \<Rightarrow> runtime \<Rightarrow> runtime" where
  "Close r rt = rt"

definition Channel :: "'s randchan \<Rightarrow> nat" where
  "Channel r = channel r"

definition safe_New :: "'s \<Rightarrow> u8 \<Rightarrow> runtime \<Rightarrow> 's randchan \<times> runtime" where
  "safe_New src bts rt =
     (let ch = channels rt;
          rt = rt\<lparr>channels := channels rt + 1\<rparr>;
          saferandom = \<lparr>source = src, bits = bts, channel = ch\<rparr>;
          rt = start saferandom rt
      in (saferandom, rt))"

lemma fold_fill:
  assumes "length sc = N" and "n \<le> N" and "m \<le> n" and "\<forall>t<m. sc ! t = W t"
    and step: "\<And>i s. m \<le> i \<Longrightarrow> i < n \<Longrightarrow> length s = N \<Longrightarrow> (\<forall>t<i. s ! t = W t) \<Longrightarrow> g i s = W i"
  shows "length (fold (\<lambda>i s. s[i := g i s]) [m..<n] sc) = N \<and>
         (\<forall>t<n. fold (\<lambda>i s. s[i := g i s]) [m..<n] sc ! t = W t)"
  using assms(2,3) step
proof (induction n)
  case 0
  then show ?case using assms(1,4) by simp
next
  case (Suc n)
  show ?case
  proof (cases "m = Suc n")
    case True
    then show ?thesis using assms(1,4) by simp
  next
    case False
    then have mn: "m \<le> n" using Suc.prems by simp
    let ?r = "fold (\<lambda>i s. s[i := g i s]) [m..<n] sc"
    have IH: "length ?r = N \<and> (\<forall>t<n. ?r ! t = W t)"
      using Suc.IH [OF _ mn] Suc.prems by simp
    have g: "g n ?r = W n"
      using Suc.prems(3) [of n ?r] mn IH by simp
    have unf: "fold (\<lambda>i s. s[i := g i s]) [m..<Suc n] sc = ?r[n := g n ?r]"
      using mn by simp
    show ?thesis
      unfolding unf using IH g Suc.prems(1)
      by (auto simp: nth_list_update less_Suc_eq)
  qed
qed

lemma message_schedule_nth:
  assumes "length sc = 80"
  shows "message_schedule M sc = map (W_code M) [0..<80]"
proof -
  define g1 :: "nat \<Rightarrow> u32 list \<Rightarrow> u32" where
    "g1 = (\<lambda>i sc. rotateL (sc ! (i - 3) XOR sc ! (i - 8) XOR sc ! (i - 14) XOR sc ! (i - 16)) 1)"
  define g2 :: "nat \<Rightarrow> u32 list \<Rightarrow> u32" where
    "g2 = (\<lambda>i sc. rotateL (sc ! (i - 6) XOR sc ! (i - 16) XOR sc ! (i - 28) XOR sc ! (i - 32)) 2)"
  define s0 where "s0 = fold (\<lambda>i sc. sc[i := M ! i]) [0..<16] sc"
  define s1 where "s1 = fold (\<lambda>i sc. sc[i := g1 i sc]) [16..<32] s0"
  define s2 where "s2 = fold (\<lambda>i sc. sc[i := g2 i sc]) [32..<80] s1"
  have s0: "length s0 = 80 \<and> (\<forall>t<16. s0 ! t = W_code M t)"
    unfolding s0_def
  proof (rule fold_fill [where W = "W_code M" and N = 80])
    fix i :: nat and s :: "u32 list" assume "i < 16"
    then show "M ! i = W_code M i"
      by (subst W_code.simps) simp
  qed (use assms in simp_all)
  have s1: "length s1 = 80 \<and> (\<forall>t<32. s1 ! t = W_code M t)"
    unfolding s1_def
  proof (rule fold_fill [where W = "W_code M" and N = 80])
    fix i s assume a: "16 \<le> i" "i < 32" "length s = 80" "\<forall>t<i. s ! t = W_code M t"
    then have rd: "s ! (i - 3) = W_code M (i - 3)" "s ! (i - 8) = W_code M (i - 8)"
      "s ! (i - 14) = W_code M (i - 14)" "s ! (i - 16) = W_code M (i - 16)"
      by auto
    have "W_code M i = rotateL (W_code M (i - 3) XOR W_code M (i - 8) XOR W_code M (i - 14)
                    XOR W_code M (i - 16)) 1"
      using a(1,2) by (subst W_code.simps) simp
    then show "g1 i s = W_code M i"
      by (simp only: rd g1_def)
  next
    show "length s0 = 80" using s0 by blast
    show "\<forall>t<16. s0 ! t = W_code M t" using s0 by blast
  qed simp_all
  have s2: "length s2 = 80 \<and> (\<forall>t<80. s2 ! t = W_code M t)"
    unfolding s2_def
  proof (rule fold_fill [where W = "W_code M" and N = 80])
    fix i s assume a: "32 \<le> i" "i < 80" "length s = 80" "\<forall>t<i. s ! t = W_code M t"
    then have rd: "s ! (i - 6) = W_code M (i - 6)" "s ! (i - 16) = W_code M (i - 16)"
      "s ! (i - 28) = W_code M (i - 28)" "s ! (i - 32) = W_code M (i - 32)"
      by auto
    have "W_code M i = rotateL (W_code M (i - 6) XOR W_code M (i - 16) XOR W_code M (i - 28)
                    XOR W_code M (i - 32)) 2"
      using a(1) by (subst W_code.simps) simp
    then show "g2 i s = W_code M i"
      by (simp only: rd g2_def)
  next
    show "length s1 = 80" using s1 by blast
    show "\<forall>t<32. s1 ! t = W_code M t" using s1 by blast
  qed simp_all
  have "length s2 = length (map (W_code M) [0..<80])"
    using s2 by (simp del: upt_rec_numeral)
  moreover have "\<And>i. i < length s2 \<Longrightarrow> s2 ! i = map (W_code M) [0..<80] ! i"
    using s2 by (simp del: upt_rec_numeral)
  ultimately have "s2 = map (W_code M) [0..<80]"
    by (rule nth_equalityI)
  moreover have "message_schedule M sc = s2"
    unfolding message_schedule_def SCRATCH_INTS_def Let_def s2_def s1_def s0_def g1_def g2_def ..
  ultimately show ?thesis by (simp only:)
qed

lemma mod32_62: "(62 + n) mod 32 = (n + 30) mod 32" for n :: nat
proof -
  have "62 + n = (n + 30) + 32" by simp
  then have "(62 + n) mod 32 = ((n + 30) + 32) mod 32" by (simp only:)
  also have "\<dots> = (n + 30) mod 32" by (rule mod_add_self2)
  finally show ?thesis .
qed

lemma rot_mod: "k \<le> n \<Longrightarrow> n < 32 \<Longrightarrow> k \<le> 32 \<Longrightarrow> (n + (32 - k)) mod 32 = n - k" for n k :: nat
proof -
  assume a: "k \<le> n" "n < 32" "k \<le> 32"
  then have "n + (32 - k) = (n - k) + 32" by arith
  then have "(n + (32 - k)) mod 32 = ((n - k) + 32) mod 32" by (simp only:)
  also have "\<dots> = (n - k) mod 32" by (rule mod_add_self2)
  also have "\<dots> = n - k" by (rule mod_less) (use a in arith)
  finally show ?thesis .
qed

lemma bit_u32_hi: "bit (v :: u32) n \<Longrightarrow> n < 32"
  using bit_imp_le_length [of v n] by simp

lemma rotateL_rotl:
  assumes "0 < k" and "k < 32"
  shows "rotateL v k = ROTL k v"
  unfolding ROTL_def
proof (rule bit_word_eqI)
  fix n :: nat assume "n < LENGTH(32)"
  then have n: "n < 32" by simp
  have L: "bit (rotateL v k) n \<longleftrightarrow> (k \<le> n \<and> bit v (n - k)) \<or> bit v (32 - k + n)"
    using n by (simp add: rotateL_def bit_or_iff bit_push_bit_iff bit_drop_bit_eq possible_bit_word)
  have R: "bit (word_rotl k v) n \<longleftrightarrow> bit v ((n + (32 - k)) mod 32)"
    using n assms by (simp add: bit_simps)
  show "bit (rotateL v k) n = bit (word_rotl k v) n"
  proof (cases "k \<le> n")
    case True
    have "\<not> bit v (32 - k + n)"
      using bit_u32_hi [of v "32 - k + n"] True assms by auto
    moreover have "(n + (32 - k)) mod 32 = n - k"
      using rot_mod [of k n] True n assms by simp
    ultimately show ?thesis using L R True by simp
  next
    case False
    then have "(n + (32 - k)) mod 32 = 32 - k + n" using assms by simp
    then show ?thesis using L R False by simp
  qed
qed

lemma rotateL_1: "rotateL v 1 = ROTL 1 v"
  by (rule rotateL_rotl) simp_all

lemma rotateL_2: "rotateL v 2 = ROTL 2 v"
  by (rule rotateL_rotl) simp_all

lemma ROTL_xor: "ROTL n (x XOR y) = ROTL n x XOR ROTL n y"
  by (simp add: ROTL_def word_rot_logs)

lemma ROTL_1_1: "ROTL 1 (ROTL 1 v) = ROTL 2 v"
  unfolding ROTL_def
  by (rule bit_word_eqI) (auto simp: bit_simps mod_simps mod32_62)

lemma xor_cancel16:
  fixes a :: u32
  shows "(a XOR b XOR c XOR d) XOR (b XOR e XOR f XOR g) XOR (c XOR f XOR h XOR i)
         XOR (d XOR g XOR i XOR j) = a XOR e XOR h XOR j"
  by (simp add: ac_simps)


lemma W_spec_rec: "16 \<le> t \<Longrightarrow> W_spec M t =
    ROTL 1 (W_spec M (t - 3) XOR W_spec M (t - 8) XOR W_spec M (t - 14) XOR W_spec M (t - 16))"
  by (subst W_spec.simps) simp

lemma W_spec_rotl2:
  assumes "32 \<le> t"
  shows "W_spec M t =
    ROTL 2 (W_spec M (t - 6) XOR W_spec M (t - 16) XOR W_spec M (t - 28) XOR W_spec M (t - 32))"
proof -
  have e3: "W_spec M (t - 3) = ROTL 1 (W_spec M (t - 6) XOR W_spec M (t - 11)
              XOR W_spec M (t - 17) XOR W_spec M (t - 19))"
    using assms W_spec_rec [of "t - 3" M] by simp
  have e8: "W_spec M (t - 8) = ROTL 1 (W_spec M (t - 11) XOR W_spec M (t - 16)
              XOR W_spec M (t - 22) XOR W_spec M (t - 24))"
    using assms W_spec_rec [of "t - 8" M] by simp
  have e14: "W_spec M (t - 14) = ROTL 1 (W_spec M (t - 17) XOR W_spec M (t - 22)
              XOR W_spec M (t - 28) XOR W_spec M (t - 30))"
    using assms W_spec_rec [of "t - 14" M] by simp
  have e16: "W_spec M (t - 16) = ROTL 1 (W_spec M (t - 19) XOR W_spec M (t - 24)
              XOR W_spec M (t - 30) XOR W_spec M (t - 32))"
    using assms W_spec_rec [of "t - 16" M] by simp
  have "W_spec M t =
    ROTL 1 (W_spec M (t - 3) XOR W_spec M (t - 8) XOR W_spec M (t - 14) XOR W_spec M (t - 16))"
    using assms by (intro W_spec_rec) simp
  also have "\<dots> = ROTL 1 (ROTL 1
      ((W_spec M (t - 6) XOR W_spec M (t - 11) XOR W_spec M (t - 17) XOR W_spec M (t - 19))
       XOR (W_spec M (t - 11) XOR W_spec M (t - 16) XOR W_spec M (t - 22) XOR W_spec M (t - 24))
       XOR (W_spec M (t - 17) XOR W_spec M (t - 22) XOR W_spec M (t - 28) XOR W_spec M (t - 30))
       XOR (W_spec M (t - 19) XOR W_spec M (t - 24) XOR W_spec M (t - 30) XOR W_spec M (t - 32))))"
    by (simp only: e3 e8 e14 e16 ROTL_xor)
  also have "\<dots> = ROTL 2
      (W_spec M (t - 6) XOR W_spec M (t - 16) XOR W_spec M (t - 28) XOR W_spec M (t - 32))"
    by (simp only: xor_cancel16 ROTL_1_1)
  finally show ?thesis .
qed

lemma W_code_eq_W_spec: "W_code M t = W_spec M t"
proof (induction t rule: less_induct)
  case (less t)
  consider "t < 16" | "16 \<le> t" "t < 32" | "32 \<le> t" by linarith
  then show ?case
  proof cases
    case 1
    then show ?thesis
      by (subst W_code.simps, subst W_spec.simps) simp
  next
    case 2
    then have "W_code M t = rotateL (W_code M (t - 3) XOR W_code M (t - 8)
        XOR W_code M (t - 14) XOR W_code M (t - 16)) 1"
      by (subst W_code.simps) simp
    also have "\<dots> = ROTL 1 (W_spec M (t - 3) XOR W_spec M (t - 8)
        XOR W_spec M (t - 14) XOR W_spec M (t - 16))"
    proof -
      have "W_code M (t - 3) = W_spec M (t - 3)" "W_code M (t - 8) = W_spec M (t - 8)"
        "W_code M (t - 14) = W_spec M (t - 14)" "W_code M (t - 16) = W_spec M (t - 16)"
        using 2 by (auto intro: less.IH)
      then show ?thesis by (simp only: rotateL_1)
    qed
    also have "\<dots> = W_spec M t"
      using 2 by (simp add: W_spec_rec)
    finally show ?thesis .
  next
    case 3
    then have "W_code M t = rotateL (W_code M (t - 6) XOR W_code M (t - 16)
        XOR W_code M (t - 28) XOR W_code M (t - 32)) 2"
      by (subst W_code.simps) simp
    also have "\<dots> = ROTL 2 (W_spec M (t - 6) XOR W_spec M (t - 16)
        XOR W_spec M (t - 28) XOR W_spec M (t - 32))"
    proof -
      have "W_code M (t - 6) = W_spec M (t - 6)" "W_code M (t - 16) = W_spec M (t - 16)"
        "W_code M (t - 28) = W_spec M (t - 28)" "W_code M (t - 32) = W_spec M (t - 32)"
        using 3 by (auto intro: less.IH)
      then show ?thesis by (simp only: rotateL_2)
    qed
    also have "\<dots> = W_spec M t"
      using 3 by (simp add: W_spec_rotl2)
    finally show ?thesis .
  qed
qed

text \<open>
  Claim C8. For every block, and every 80-word scratch array handed to
  \<^verbatim>\<open>mixBits\<close>, the schedule that the three loops leave in the scratch array
  is, word for word, the schedule of the specification, which applies the
  rotate-by-one recurrence at every index from 16 to 79.
\<close>

theorem mixBits_schedule_refines_spec:
  "length scratch = 80 \<Longrightarrow> message_schedule blk scratch = spec_schedule blk"
proof -
  assume "length scratch = 80"
  then have "message_schedule blk scratch = map (W_code blk) [0..<80]"
    by (rule message_schedule_nth)
  moreover have "W_code blk = W_spec blk"
    by (rule ext) (rule W_code_eq_W_spec)
  ultimately show ?thesis
    by (simp only: spec_schedule_def)
qed


theorem mixBits_schedule_refines_spec_witness:
  "length new_scratch = 80 \<and>
   message_schedule (replicate 16 0) new_scratch = spec_schedule (replicate 16 0)"
  using mixBits_schedule_refines_spec [of new_scratch "replicate 16 0"]
  by (simp add: new_scratch_def SCRATCH_INTS_def)

lemma Reset_draft_digest:
  "length (digest_d s) = 5 \<Longrightarrow> digest_d (Reset_draft s) = 0xc3d2e1f0 # tl (digest_d s)"
  by (cases "digest_d s") (simp_all add: Reset_draft_def Let_def)

lemma replicate_5: "replicate 5 x = [x, x, x, x, x]"
  by (simp add: numeral_eq_Suc)

text \<open>
  Claim C3, at the \<^verbatim>\<open>Reset\<close> of the first draft: on the zero-valued hasher
  that \<^verbatim>\<open>New\<close> resets, the five stores all hit slot 0, so the chain value
  is the last constant followed by four zeros, not the five constants.
\<close>

theorem Reset_draft_writes_slot0_only:
  "digest_d New_draft = [0xc3d2e1f0, 0, 0, 0, 0] \<and>
   digest_d New_draft \<noteq> [0x67452301, 0xefcdab89, 0x98badcfe, 0x10325476, 0xc3d2e1f0]"
  by (simp add: New_draft_def Reset_draft_def zero_hasher_draft_def DIGEST_INTS_def Let_def
      replicate_5)

lemma len5: "length xs = 5 \<Longrightarrow> \<exists>a b c d e. xs = [a, b, c, d, e]"
  by (auto simp: numeral_eq_Suc length_Suc_conv)

lemma Reset_current:
  assumes "length (chainValue s) = 5"
  shows "Reset s = s\<lparr>block := replicate 16 0, length_h := 0,
           chainValue := [0x67452301, 0xefcdab89, 0x98badcfe, 0x10325476, 0xc3d2e1f0]\<rparr>"
proof -
  obtain a b c d e where "chainValue s = [a, b, c, d, e]"
    using len5 [OF assms] by blast
  then show ?thesis
    by (simp add: Reset_def Let_def BLOCK_INTS_def)
qed

lemma length_chainValue_mixBits [simp]:
  "length (chainValue (mixBits s sc)) = length (chainValue s)"
  by (simp add: mixBits_def Let_def split: prod.splits)

lemma Hash_resets:
  assumes "length (chainValue s) = 5"
  shows "snd (Hash s) = s\<lparr>block := replicate 16 0, length_h := 0,
           chainValue := [0x67452301, 0xefcdab89, 0x98badcfe, 0x10325476, 0xc3d2e1f0]\<rparr>"
proof -
  obtain t where t: "snd (Hash s) = Reset t" "length (chainValue t) = 5" "hasher.more t = hasher.more s"
    using assms by (simp add: Hash_def Let_def mixBits_def split: prod.splits)
  show ?thesis
    unfolding t(1) Reset_current [OF t(2)] using t(3) by simp
qed

lemma PutUint64_at_short: "length bytes < off + 8 \<Longrightarrow> \<exists>e. PutUint64_at bytes off v = Inl e"
  by (auto simp: PutUint64_at_def)

lemma PutUint64_at_Inr:
  "PutUint64_at bytes off v = Inr bytes' \<Longrightarrow> off + 8 \<le> length bytes \<and> length bytes' = length bytes"
  by (auto simp: PutUint64_at_def be64_def split: if_splits)

lemma seed_loop_Inr:
  "seed_loop i ms bytes = Inr bytes' \<Longrightarrow>
     length bytes' = length bytes \<and> (ms \<noteq> [] \<longrightarrow> 8 * (i + length ms) + 8 \<le> length bytes)"
proof (induction ms arbitrary: i bytes)
  case Nil
  then show ?case by simp
next
  case (Cons m ms)
  from Cons.prems obtain b1 where b1: "PutUint64_at bytes (8 * (i + 1)) m = Inr b1"
    and rest: "seed_loop (i + 1) ms b1 = Inr bytes'"
    by (auto split: sum.splits)
  from PutUint64_at_Inr [OF b1] have l1: "8 * (i + 1) + 8 \<le> length bytes" "length b1 = length bytes"
    by simp_all
  from Cons.IH [OF rest] have "length bytes' = length b1"
    "ms \<noteq> [] \<longrightarrow> 8 * (i + 1 + length ms) + 8 \<le> length b1" by simp_all
  with l1 show ?case by (cases ms) auto
qed

lemma NewSourceSeeded_always_panics: "\<exists>e. NewSourceSeeded seed more_seeds = Inl e"
proof (cases "PutUint64_at (replicate (2 + 2 * length more_seeds) 0) 0 seed")
  case (Inl e)
  then show ?thesis by (simp add: NewSourceSeeded_def Let_def)
next
  case (Inr b1)
  from PutUint64_at_Inr [OF Inr] have l1: "8 \<le> 2 + 2 * length more_seeds"
    "length b1 = 2 + 2 * length more_seeds" by simp_all
  then have ne: "more_seeds \<noteq> []" by auto
  show ?thesis
  proof (cases "seed_loop 0 more_seeds b1")
    case (Inl e)
    then show ?thesis using Inr by (simp add: NewSourceSeeded_def Let_def)
  next
    case (Inr b2)
    from seed_loop_Inr [OF Inr] ne l1 have False by simp
    then show ?thesis ..
  qed
qed

text \<open>
  Claim C4, at the seed \<open>0x0000000000000001\<close>: the constructor allocates two
  bytes and panics in the first eight-byte store, so no generator is
  returned and no first draw takes place.
\<close>

theorem NewSourceSeeded_one_panics: "NewSourceSeeded 0x0000000000000001 [] = Inl IndexOutOfRange"
  by (simp add: NewSourceSeeded_def PutUint64_at_def Let_def)

text \<open>
  Claim C7. \<^verbatim>\<open>Bytes\<close> returns the empty slice for a bit count of zero and
  panics for every other bit count, on the first store into its slice of
  length zero; it never returns \<open>ceil(n/8)\<close> bytes for \<open>n\<close> from 1 to 255.
\<close>

theorem Bytes_of_panics:
  "Bytes_of uint64 src bts =
     (if bts = 0 then Some (Inr ([], src)) else Some (Inl IndexOutOfRange))"
proof (cases "bts = 0")
  case True
  then show ?thesis by (simp add: Bytes_of_def)
next
  case False
  then have pos: "0 < bts" by (simp add: word_greater_zero_iff)
  obtain nxt src' where d: "uint64 src = (nxt, src')" by (cases "uint64 src")
  have inner: "Bytes_inner 0 bts nxt [] 0 = Inl IndexOutOfRange"
    by (subst Bytes_inner.simps) (simp add: Let_def)
  have "Bytes_outer (Suc 255) uint64 src bts [] 0 = Some (Inl IndexOutOfRange)"
    by (simp only: Bytes_outer.simps pos d inner if_True prod.case sum.case)
  then have "Bytes_outer 256 uint64 src bts [] 0 = Some (Inl IndexOutOfRange)"
    by simp
  then show ?thesis using False by (simp add: Bytes_of_def Let_def)
qed

text \<open>
  Claim C9. Opening a channel with \<^verbatim>\<open>New\<close> of package safe starts no
  goroutine and sends nothing, and \<^verbatim>\<open>Close\<close> changes nothing: \<^verbatim>\<open>start\<close> and
  \<^verbatim>\<open>Close\<close> have empty bodies.
\<close>

theorem safe_New_starts_nothing:
  "goroutines (snd (safe_New src bts rt)) = goroutines rt \<and>
   sent (snd (safe_New src bts rt)) = sent rt \<and>
   Close (fst (safe_New src bts rt)) (snd (safe_New src bts rt)) = snd (safe_New src bts rt)"
  by (simp add: safe_New_def start_def Close_def Let_def)

lemma rev_map_W_nth:
  "j < n \<Longrightarrow> rev (map (W_code M) [0..<n]) ! j = W_code M (n - Suc j)"
  by (simp add: rev_nth del: upt_rec_numeral)

lemma W_code_block: "length M = 16 \<Longrightarrow> map (W_code M) [0..<16] = M"
proof -
  assume l: "length M = 16"
  have "map (W_code M) [0..<16] = map ((!) M) [0..<16]"
  proof (rule map_cong [OF refl])
    fix t assume "t \<in> set [0..<16]"
    then have "t < 16" by (simp del: upt_rec_numeral)
    then show "W_code M t = M ! t" by (subst W_code.simps) simp
  qed
  also have "\<dots> = M" using l map_nth [of M] by (simp only:)
  finally show ?thesis .
qed

lemma ext1_fold:
  assumes "length M = 16"
  shows "16 \<le> n \<Longrightarrow> n \<le> 32 \<Longrightarrow>
    fold (\<lambda>_. ext1) [16..<n] (rev M) = rev (map (W_code M) [0..<n])"
proof (induction n rule: dec_induct)
  case base
  show ?case using W_code_block [OF assms] by (simp del: upt_rec_numeral)
next
  case (step n)
  let ?R = "rev (map (W_code M) [0..<n])"
  have IH: "fold (\<lambda>_. ext1) [16..<n] (rev M) = ?R" using step by simp
  have rd: "?R ! 2 = W_code M (n - 3)" "?R ! 7 = W_code M (n - 8)"
    "?R ! 13 = W_code M (n - 14)" "?R ! 15 = W_code M (n - 16)"
    using step.hyps by (simp_all add: rev_map_W_nth del: upt_rec_numeral rev_map)
  have w: "W_code M n = rotateL (W_code M (n - 3) XOR W_code M (n - 8)
      XOR W_code M (n - 14) XOR W_code M (n - 16)) 1"
    using step.hyps step.prems by (subst W_code.simps) simp
  have "fold (\<lambda>_. ext1) [16..<Suc n] (rev M) = ext1 ?R"
    using IH step.hyps by (simp del: upt_rec_numeral)
  also have "\<dots> = W_code M n # ?R"
    unfolding ext1_def rd w ..
  also have "\<dots> = rev (map (W_code M) [0..<Suc n])"
    by (simp del: upt_rec_numeral)
  finally show ?case .
qed

lemma ext2_fold:
  "32 \<le> n \<Longrightarrow>
   fold (\<lambda>_. ext2) [32..<n] (rev (map (W_code M) [0..<32])) = rev (map (W_code M) [0..<n])"
proof (induction n rule: dec_induct)
  case base
  show ?case by (simp del: upt_rec_numeral)
next
  case (step n)
  let ?R = "rev (map (W_code M) [0..<n])"
  have IH: "fold (\<lambda>_. ext2) [32..<n] (rev (map (W_code M) [0..<32])) = ?R"
    using step by simp
  have rd: "?R ! 5 = W_code M (n - 6)" "?R ! 15 = W_code M (n - 16)"
    "?R ! 27 = W_code M (n - 28)" "?R ! 31 = W_code M (n - 32)"
    using step.hyps by (simp_all add: rev_map_W_nth del: upt_rec_numeral rev_map)
  have w: "W_code M n = rotateL (W_code M (n - 6) XOR W_code M (n - 16)
      XOR W_code M (n - 28) XOR W_code M (n - 32)) 2"
    using step.hyps by (subst W_code.simps) simp
  have "fold (\<lambda>_. ext2) [32..<Suc n] (rev (map (W_code M) [0..<32])) = ext2 ?R"
    using IH step.hyps by (simp del: upt_rec_numeral)
  also have "\<dots> = W_code M n # ?R"
    unfolding ext2_def rd w ..
  also have "\<dots> = rev (map (W_code M) [0..<Suc n])"
    by (simp del: upt_rec_numeral)
  finally show ?case .
qed

lemma message_schedule_window:
  assumes "length sc = 80" and "length M = 16"
  shows "message_schedule M sc =
    rev (fold (\<lambda>_. ext2) [32..<80] (fold (\<lambda>_. ext1) [16..<32] (rev M)))"
proof -
  have a: "fold (\<lambda>_. ext1) [16..<32] (rev M) = rev (map (W_code M) [0..<32])"
    by (rule ext1_fold [OF assms(2)]) simp_all
  have b: "fold (\<lambda>_. ext2) [32..<80] (rev (map (W_code M) [0..<32]))
     = rev (map (W_code M) [0..<80])"
    by (rule ext2_fold) simp
  show ?thesis
    unfolding a b message_schedule_nth [OF assms(1)] by (simp only: rev_rev_ident)
qed

end
